theory Spec2Isabelle
  imports Main "HOL-Library.Multiset"
begin

section \<open>The ticket queue\<close>

text \<open>
  \<^verbatim>\<open>sellTickets(queue)\<close> of \<^verbatim>\<open>src/objects-tasks.js\<close> folds the array into \<^verbatim>\<open>sum\<close> with
  \<^verbatim>\<open>+=\<close> and \<^verbatim>\<open>-=\<close>, which on JavaScript numbers are the IEEE 754 double operations:
  the exact result rounded to the nearest double, ties to the even significand, and to an
  infinity beyond the largest double.

  Every finite double is an integer multiple of \<open>2^-1074\<close>, the smallest positive double.
  \<open>Finite k\<close> stands for the double of value \<open>k * 2^-1074\<close>; the doubles are the \<open>Finite k\<close>
  with \<open>k\<close> of at most 53 significant bits and magnitude below \<open>2^2098\<close> (that is, value
  below \<open>2^1024\<close>), the two infinities and NaN. The two zeros are one value here: the
  function adds to, subtracts from and compares \<^verbatim>\<open>sum\<close>, and compares an element with 25,
  and none of these tells \<open>+0\<close> from \<open>-0\<close>.
\<close>

datatype number = Finite int | PosInfinity | NegInfinity | NaN

text \<open>The double whose value is the integer \<open>n\<close>, for an \<open>n\<close> that some double has as value.\<close>

definition from_int :: "int \<Rightarrow> number" where
  "from_int n = Finite (n * 2 ^ 1074)"

text \<open>The number of binary digits of a natural number.\<close>

fun bit_length :: "nat \<Rightarrow> nat" where
  "bit_length n = (if n = 0 then 0 else Suc (bit_length (n div 2)))"

declare bit_length.simps [simp del]

text \<open>
  Rounding an integer to 53 significant bits, to nearest and ties to even: \<open>q\<close> low bits
  are dropped, \<open>r\<close> is what they held and \<open>2^q\<close> the unit in the last place kept.
\<close>

definition round_nearest_even :: "int \<Rightarrow> int" where
  "round_nearest_even k =
     (let a = nat \<bar>k\<bar>;
          q = bit_length a - 53;
          d = a div 2 ^ q;
          r = a mod 2 ^ q;
          m = (if 2 ^ q < 2 * r \<or> (2 * r = 2 ^ q \<and> odd d) then d + 1 else d)
      in sgn k * int (m * 2 ^ q))"

text \<open>The double nearest to \<open>k * 2^-1074\<close>; a rounded magnitude of \<open>2^1024\<close> or more overflows.\<close>

definition to_double :: "int \<Rightarrow> number" where
  "to_double k =
     (let r = round_nearest_even k
      in if 2 ^ 2098 \<le> r then PosInfinity
         else if r \<le> - (2 ^ 2098) then NegInfinity
         else Finite r)"

text \<open>\<^verbatim>\<open>x + y\<close>, \<^verbatim>\<open>-y\<close>, \<^verbatim>\<open>x - y\<close> and \<^verbatim>\<open>x < y\<close> on numbers.\<close>

fun number_add :: "number \<Rightarrow> number \<Rightarrow> number" where
  "number_add NaN y = NaN"
| "number_add x NaN = NaN"
| "number_add PosInfinity NegInfinity = NaN"
| "number_add NegInfinity PosInfinity = NaN"
| "number_add PosInfinity y = PosInfinity"
| "number_add NegInfinity y = NegInfinity"
| "number_add x PosInfinity = PosInfinity"
| "number_add x NegInfinity = NegInfinity"
| "number_add (Finite a) (Finite b) = to_double (a + b)"

fun negate :: "number \<Rightarrow> number" where
  "negate (Finite a) = Finite (- a)"
| "negate PosInfinity = NegInfinity"
| "negate NegInfinity = PosInfinity"
| "negate NaN = NaN"

definition number_sub :: "number \<Rightarrow> number \<Rightarrow> number" where
  "number_sub x y = number_add x (negate y)"

fun number_less :: "number \<Rightarrow> number \<Rightarrow> bool" where
  "number_less NaN y = False"
| "number_less x NaN = False"
| "number_less (Finite a) (Finite b) = (a < b)"
| "number_less NegInfinity NegInfinity = False"
| "number_less NegInfinity y = True"
| "number_less x PosInfinity = (x \<noteq> PosInfinity)"
| "number_less x y = False"

text \<open>The values of the type that are doubles.\<close>

fun is_double :: "number \<Rightarrow> bool" where
  "is_double (Finite k) = (round_nearest_even k = k \<and> \<bar>k\<bar> < 2 ^ 2098)"
| "is_double x = True"

text \<open>
  \<^verbatim>\<open>forEach\<close> visits the elements from left to right: a left fold over the list, starting
  from \<^verbatim>\<open>sum = 0\<close>. \<^verbatim>\<open>el === 25\<close> is equality with the double 25.
\<close>

definition sellTickets :: "number list \<Rightarrow> bool" where
  "sellTickets queue =
     (let sum = foldl (\<lambda>sum el. if el = from_int 25 then number_add sum (from_int 25)
                                  else number_sub sum el) (from_int 0) queue
      in if number_less sum (from_int 0) then False else True)"

text \<open>
  The two sums the claim compares, on integer bills: the bills equal to 25, and all the
  others.
\<close>

definition bills_25 :: "int list \<Rightarrow> int" where
  "bills_25 bills = sum_list (filter (\<lambda>el. el = 25) bills)"

definition bills_other :: "int list \<Rightarrow> int" where
  "bills_other bills = sum_list (filter (\<lambda>el. el \<noteq> 25) bills)"

section \<open>The selector builder\<close>

subsection \<open>Errors\<close>

text \<open>
  \<^verbatim>\<open>checkUsage\<close> throws \<^verbatim>\<open>new Error(...)\<close> at two places, told apart by the message only.
  The two throw sites are the two constructors; \<open>message\<close> is the text each carries.
\<close>

datatype error = OrderingError | DuplicateError

fun message :: "error \<Rightarrow> string" where
  \<open>message OrderingError =
     ''Selector parts should be arranged in the following order: element, id, class, attribute, pseudo-class, pseudo-element''\<close>
| \<open>message DuplicateError =
     ''Element, id and pseudo-element should not occur more then one time inside the selector" if element, id or pseudo-element occurs twice or more times''\<close>

subsection \<open>The object\<close>

text \<open>
  The fields the constructor assigns. Each \<^verbatim>\<open>...Used\<close> field is a two-element array
  \<^verbatim>\<open>[usedFlag, rankNumber]\<close>, here a pair. The arrays are created by array literals in
  the constructor and in \<^verbatim>\<open>reset\<close> only and are never handed from one object to another,
  so each object owns its seven arrays and they are stored in the record by value.
\<close>

record CssSelectorBuilder =
  result :: string
  previousOrder :: nat
  elementUsed :: "bool \<times> nat"
  idUsed :: "bool \<times> nat"
  classUsed :: "bool \<times> nat"
  attrUsed :: "bool \<times> nat"
  pseudoClassUsed :: "bool \<times> nat"
  pseudoElementUsed :: "bool \<times> nat"
  combinatorUsed :: "bool \<times> nat"

definition constructor :: CssSelectorBuilder where
  "constructor =
     \<lparr> result = [], previousOrder = 0,
       elementUsed = (False, 0), idUsed = (False, 1), classUsed = (False, 2),
       attrUsed = (False, 3), pseudoClassUsed = (False, 4),
       pseudoElementUsed = (False, 5), combinatorUsed = (False, 6) \<rparr>"

text \<open>
  The argument of \<^verbatim>\<open>checkUsage\<close> is one of the literals \<^verbatim>\<open>'element'\<close>, \<^verbatim>\<open>'id'\<close>,
  \<^verbatim>\<open>'class'\<close>, \<^verbatim>\<open>'attr'\<close>, \<^verbatim>\<open>'pseudoClass'\<close>, \<^verbatim>\<open>'pseudoElement'\<close>; \<^verbatim>\<open>'combinator'\<close> names
  the seventh flag field, which the list inside \<^verbatim>\<open>checkUsage\<close> mentions and which no
  method passes.
\<close>

datatype methodName = Element | Id | Class | Attr | PseudoClass | PseudoElement | Combinator

text \<open>\<^verbatim>\<open>this[usedFlag]\<close> with \<^verbatim>\<open>usedFlag = `${methodName}Used`\<close>.\<close>

fun usedFlag :: "methodName \<Rightarrow> CssSelectorBuilder \<Rightarrow> bool \<times> nat" where
  "usedFlag Element this = elementUsed this"
| "usedFlag Id this = idUsed this"
| "usedFlag Class this = classUsed this"
| "usedFlag Attr this = attrUsed this"
| "usedFlag PseudoClass this = pseudoClassUsed this"
| "usedFlag PseudoElement this = pseudoElementUsed this"
| "usedFlag Combinator this = combinatorUsed this"

text \<open>\<^verbatim>\<open>this[usedFlag][0] = true\<close>.\<close>

fun markUsed :: "methodName \<Rightarrow> CssSelectorBuilder \<Rightarrow> CssSelectorBuilder" where
  "markUsed Element this = this\<lparr>elementUsed := (True, snd (elementUsed this))\<rparr>"
| "markUsed Id this = this\<lparr>idUsed := (True, snd (idUsed this))\<rparr>"
| "markUsed Class this = this\<lparr>classUsed := (True, snd (classUsed this))\<rparr>"
| "markUsed Attr this = this\<lparr>attrUsed := (True, snd (attrUsed this))\<rparr>"
| "markUsed PseudoClass this = this\<lparr>pseudoClassUsed := (True, snd (pseudoClassUsed this))\<rparr>"
| "markUsed PseudoElement this = this\<lparr>pseudoElementUsed := (True, snd (pseudoElementUsed this))\<rparr>"
| "markUsed Combinator this = this\<lparr>combinatorUsed := (True, snd (combinatorUsed this))\<rparr>"

text \<open>The list \<^verbatim>\<open>['classUsed', 'attrUsed', 'pseudoClassUsed', 'combinatorUsed']\<close>.\<close>

definition repeatable :: "methodName list" where
  "repeatable = [Class, Attr, PseudoClass, Combinator]"

text \<open>
  A method body runs on \<^verbatim>\<open>this\<close> and either returns or throws; in both cases the
  object is left as the body made it, so the outcome is paired with the object after
  the call. Note that \<^verbatim>\<open>checkUsage\<close> assigns \<^verbatim>\<open>previousOrder\<close> before its second throw.
\<close>

definition checkUsage :: "methodName \<Rightarrow> CssSelectorBuilder \<Rightarrow> (error + unit) \<times> CssSelectorBuilder" where
  "checkUsage m this =
     (if snd (usedFlag m this) < previousOrder this then (Inl OrderingError, this)
      else
        let flag = snd (usedFlag m this);
            this1 = this\<lparr>previousOrder := flag\<rparr>
        in if m \<notin> set repeatable
           then (if fst (usedFlag m this1) then (Inl DuplicateError, this1)
                 else (Inr (), markUsed m this1))
           else (Inr (), this1))"

text \<open>\<^verbatim>\<open>this.checkUsage(m); this.result += fragment; return this;\<close>\<close>

definition checked_append ::
  "methodName \<Rightarrow> string \<Rightarrow> CssSelectorBuilder \<Rightarrow> (error + unit) \<times> CssSelectorBuilder" where
  "checked_append m frag this =
     (case checkUsage m this of
        (Inl e, this1) \<Rightarrow> (Inl e, this1)
      | (Inr u, this1) \<Rightarrow> (Inr (), this1\<lparr>result := result this1 @ frag\<rparr>))"

definition element :: "string \<Rightarrow> CssSelectorBuilder \<Rightarrow> (error + unit) \<times> CssSelectorBuilder" where
  "element v this = checked_append Element v this"

definition id_m :: "string \<Rightarrow> CssSelectorBuilder \<Rightarrow> (error + unit) \<times> CssSelectorBuilder" where
  "id_m v this = checked_append Id (''#'' @ v) this"

definition class_m :: "string \<Rightarrow> CssSelectorBuilder \<Rightarrow> (error + unit) \<times> CssSelectorBuilder" where
  "class_m v this = checked_append Class (''.'' @ v) this"

definition attr :: "string \<Rightarrow> CssSelectorBuilder \<Rightarrow> (error + unit) \<times> CssSelectorBuilder" where
  "attr v this = checked_append Attr (''['' @ v @ '']'') this"

definition pseudoClass :: "string \<Rightarrow> CssSelectorBuilder \<Rightarrow> (error + unit) \<times> CssSelectorBuilder" where
  "pseudoClass v this = checked_append PseudoClass ('':'' @ v) this"

definition pseudoElement :: "string \<Rightarrow> CssSelectorBuilder \<Rightarrow> (error + unit) \<times> CssSelectorBuilder" where
  "pseudoElement v this = checked_append PseudoElement (''::'' @ v) this"

definition reset :: "CssSelectorBuilder \<Rightarrow> CssSelectorBuilder" where
  "reset this =
     this\<lparr> result := [], previousOrder := 0,
          elementUsed := (False, 0), idUsed := (False, 1), classUsed := (False, 2),
          attrUsed := (False, 3), pseudoClassUsed := (False, 4),
          pseudoElementUsed := (False, 5), combinatorUsed := (False, 6) \<rparr>"

definition stringify :: "CssSelectorBuilder \<Rightarrow> string \<times> CssSelectorBuilder" where
  "stringify this = (let r = result this in (r, reset this))"

subsection \<open>Calls and chains\<close>

text \<open>
  One call of a fragment method with its argument, so that a sequence of calls is a list.
\<close>

datatype call =
    CallElement string | CallId string | CallClass string
  | CallAttr string | CallPseudoClass string | CallPseudoElement string

fun invoke :: "call \<Rightarrow> CssSelectorBuilder \<Rightarrow> (error + unit) \<times> CssSelectorBuilder" where
  "invoke (CallElement v) = element v"
| "invoke (CallId v) = id_m v"
| "invoke (CallClass v) = class_m v"
| "invoke (CallAttr v) = attr v"
| "invoke (CallPseudoClass v) = pseudoClass v"
| "invoke (CallPseudoElement v) = pseudoElement v"

text \<open>
  A chained expression \<^verbatim>\<open>b.m1(v1).m2(v2)...\<close>: every method returns \<^verbatim>\<open>this\<close>, and the
  first throw ends the evaluation.
\<close>

fun chain :: "call list \<Rightarrow> CssSelectorBuilder \<Rightarrow> (error + unit) \<times> CssSelectorBuilder" where
  "chain [] this = (Inr (), this)"
| "chain (c # cs) this =
     (case invoke c this of
        (Inl e, this1) \<Rightarrow> (Inl e, this1)
      | (Inr u, this1) \<Rightarrow> chain cs this1)"

text \<open>
  A caller that catches each error and goes on with the same object: the object after
  all the calls, and the calls that returned.
\<close>

fun attempt_all :: "call list \<Rightarrow> CssSelectorBuilder \<Rightarrow> CssSelectorBuilder" where
  "attempt_all [] this = this"
| "attempt_all (c # cs) this = attempt_all cs (snd (invoke c this))"

fun accepted :: "call list \<Rightarrow> CssSelectorBuilder \<Rightarrow> call list" where
  "accepted [] this = []"
| "accepted (c # cs) this =
     (case invoke c this of
        (Inl e, this1) \<Rightarrow> accepted cs this1
      | (Inr u, this1) \<Rightarrow> c # accepted cs this1)"

subsection \<open>The specification's table\<close>

text \<open>Kind, rank, singleton and format of a call, as the specification tabulates them.\<close>

fun kind :: "call \<Rightarrow> methodName" where
  "kind (CallElement v) = Element"
| "kind (CallId v) = Id"
| "kind (CallClass v) = Class"
| "kind (CallAttr v) = Attr"
| "kind (CallPseudoClass v) = PseudoClass"
| "kind (CallPseudoElement v) = PseudoElement"

fun rank :: "methodName \<Rightarrow> nat" where
  "rank Element = 0"
| "rank Id = 1"
| "rank Class = 2"
| "rank Attr = 3"
| "rank PseudoClass = 4"
| "rank PseudoElement = 5"
| "rank Combinator = 6"

fun singleton :: "methodName \<Rightarrow> bool" where
  "singleton Element = True"
| "singleton Id = True"
| "singleton PseudoElement = True"
| "singleton k = False"

fun formatted :: "call \<Rightarrow> string" where
  "formatted (CallElement v) = v"
| "formatted (CallId v) = ''#'' @ v"
| "formatted (CallClass v) = ''.'' @ v"
| "formatted (CallAttr v) = ''['' @ v @ '']''"
| "formatted (CallPseudoClass v) = '':'' @ v"
| "formatted (CallPseudoElement v) = ''::'' @ v"

text \<open>
  A sequence of calls respects the rank order when the ranks never decrease, and the
  singleton constraint when no singleton kind occurs twice.
\<close>

definition respects_order :: "call list \<Rightarrow> bool" where
  "respects_order cs = sorted (map (\<lambda>c. rank (kind c)) cs)"

definition respects_singletons :: "call list \<Rightarrow> bool" where
  "respects_singletons cs = distinct (filter singleton (map kind cs))"

text \<open>The rank of the fragment appended last, and 0 when none was.\<close>

definition last_rank :: "call list \<Rightarrow> nat" where
  "last_rank cs = (if cs = [] then 0 else rank (kind (last cs)))"

text \<open>
  The object that holds exactly the fragments \<open>hist\<close>, appended after the text \<open>s\<close>
  the object started with.
\<close>

definition holding :: "string \<Rightarrow> call list \<Rightarrow> CssSelectorBuilder" where
  "holding s hist =
     \<lparr> result = s @ concat (map formatted hist), previousOrder = last_rank hist,
       elementUsed = (Element \<in> kind ` set hist, 0), idUsed = (Id \<in> kind ` set hist, 1),
       classUsed = (False, 2), attrUsed = (False, 3), pseudoClassUsed = (False, 4),
       pseudoElementUsed = (PseudoElement \<in> kind ` set hist, 5),
       combinatorUsed = (False, 6) \<rparr>"

subsection \<open>Objects and references\<close>

text \<open>
  A builder is an object with identity, and \<^verbatim>\<open>combine\<close> takes two references that may
  be the same object. The store is the list of the objects allocated so far, a
  reference is an index into it, and \<^verbatim>\<open>new CssSelectorBuilder()\<close> allocates at the end.
  A reference a program holds was returned by an allocation, so it is below the length
  of the store.
\<close>

type_synonym heap = "CssSelectorBuilder list"

definition new_CssSelectorBuilder :: "heap \<Rightarrow> nat \<times> heap" where
  "new_CssSelectorBuilder h = (length h, h @ [constructor])"

text \<open>Running a method body on the object behind the reference \<open>p\<close>.\<close>

definition on :: "nat \<Rightarrow> (CssSelectorBuilder \<Rightarrow> 'a \<times> CssSelectorBuilder) \<Rightarrow> heap \<Rightarrow> 'a \<times> heap" where
  "on p body h = (case body (h ! p) of (r, this1) \<Rightarrow> (r, h[p := this1]))"

text \<open>\<^verbatim>\<open>p.m(v)\<close> for a fragment method: it returns \<^verbatim>\<open>this\<close>, the reference it was called on.\<close>

definition method_call :: "nat \<Rightarrow> call \<Rightarrow> heap \<Rightarrow> (error + nat) \<times> heap" where
  "method_call p c h =
     (case on p (invoke c) h of
        (Inl e, h1) \<Rightarrow> (Inl e, h1)
      | (Inr u, h1) \<Rightarrow> (Inr p, h1))"

text \<open>\<^verbatim>\<open>CssSelectorBuilder.prototype.combine\<close>; its receiver \<^verbatim>\<open>this\<close> is not used.\<close>

definition combine :: "nat \<Rightarrow> nat \<Rightarrow> string \<Rightarrow> nat \<Rightarrow> heap \<Rightarrow> nat \<times> heap" where
  "combine this selector1 combinator selector2 h =
     (let (res, h0) = new_CssSelectorBuilder h;
          (s1, h1) = on selector1 stringify h0;
          (s2, h2) = on selector2 stringify h1
      in (res, h2[res := (h2 ! res)\<lparr>result := s1 @ '' '' @ combinator @ '' '' @ s2\<rparr>]))"

text \<open>
  The exported object \<^verbatim>\<open>cssSelectorBuilder\<close>: each of its methods allocates a builder
  and calls the method of the same name on it.
\<close>

definition cssSelectorBuilder_method :: "call \<Rightarrow> heap \<Rightarrow> (error + nat) \<times> heap" where
  "cssSelectorBuilder_method c h =
     (let (p, h1) = new_CssSelectorBuilder h in method_call p c h1)"

definition cssSelectorBuilder_combine :: "nat \<Rightarrow> string \<Rightarrow> nat \<Rightarrow> heap \<Rightarrow> nat \<times> heap" where
  "cssSelectorBuilder_combine selector1 combinator selector2 h =
     (let (p, h1) = new_CssSelectorBuilder h in combine p selector1 combinator selector2 h1)"

text \<open>
  The expression \<^verbatim>\<open>cssSelectorBuilder.m1(v1).m2(v2)...\<close>, whose value is a reference, and
  the same followed by \<^verbatim>\<open>.stringify()\<close>: the calls after the first go to the reference
  the call before returned.
\<close>

fun chained_calls :: "nat \<Rightarrow> call list \<Rightarrow> heap \<Rightarrow> (error + nat) \<times> heap" where
  "chained_calls p [] h = (Inr p, h)"
| "chained_calls p (c # cs) h =
     (case method_call p c h of
        (Inl e, h1) \<Rightarrow> (Inl e, h1)
      | (Inr q, h1) \<Rightarrow> chained_calls q cs h1)"

definition builder_expression :: "call \<Rightarrow> call list \<Rightarrow> heap \<Rightarrow> (error + nat) \<times> heap" where
  "builder_expression c cs h =
     (case cssSelectorBuilder_method c h of
        (Inl e, h1) \<Rightarrow> (Inl e, h1)
      | (Inr p, h1) \<Rightarrow> chained_calls p cs h1)"

definition selector_expression :: "call \<Rightarrow> call list \<Rightarrow> heap \<Rightarrow> (error + string) \<times> heap" where
  "selector_expression c cs h =
     (case builder_expression c cs h of
        (Inl e, h2) \<Rightarrow> (Inl e, h2)
      | (Inr q, h2) \<Rightarrow> (case on q stringify h2 of (s, h3) \<Rightarrow> (Inr s, h3)))"

text \<open>
  The stores a program can be in: it starts with no builder, and every step is an
  allocation, a fragment method call (returning or throwing, the caller going on in
  both cases), \<^verbatim>\<open>stringify\<close> or \<^verbatim>\<open>combine\<close>, on references it holds.
\<close>

inductive reachable :: "heap \<Rightarrow> bool" where
  start: "reachable []"
| allocated: "reachable h \<Longrightarrow> reachable (snd (new_CssSelectorBuilder h))"
| called: "reachable h \<Longrightarrow> p < length h \<Longrightarrow> reachable (snd (method_call p c h))"
| stringified: "reachable h \<Longrightarrow> p < length h \<Longrightarrow> reachable (snd (on p stringify h))"
| combined: "reachable h \<Longrightarrow> this < length h \<Longrightarrow> selector1 < length h \<Longrightarrow>
     selector2 < length h \<Longrightarrow> reachable (snd (combine this selector1 combinator selector2 h))"

text \<open>
  The two nestings of three selectors under two combinators, each evaluated from the
  same store (arguments are evaluated before the call, left to right).
\<close>

definition nested_left :: "nat \<Rightarrow> string \<Rightarrow> nat \<Rightarrow> string \<Rightarrow> nat \<Rightarrow> heap \<Rightarrow> string \<times> heap" where
  "nested_left a c1 b c2 c h =
     (let (x, h1) = cssSelectorBuilder_combine a c1 b h;
          (y, h2) = cssSelectorBuilder_combine x c2 c h1
      in on y stringify h2)"

definition nested_right :: "nat \<Rightarrow> string \<Rightarrow> nat \<Rightarrow> string \<Rightarrow> nat \<Rightarrow> heap \<Rightarrow> string \<times> heap" where
  "nested_right a c1 b c2 c h =
     (let (x, h1) = cssSelectorBuilder_combine b c2 c h;
          (y, h2) = cssSelectorBuilder_combine a c1 x h1
      in on y stringify h2)"

text \<open>
  The objects the proofs below run over: the ones that hold a sequence of fragments in
  rank order with no singleton kind twice. Every object a program can reach is one.
\<close>

definition wellformed :: "CssSelectorBuilder \<Rightarrow> bool" where
  "wellformed b \<longleftrightarrow>
     (\<exists>s hist. b = holding s hist \<and> respects_order hist \<and> respects_singletons hist)"

section \<open>Properties of the ticket queue\<close>

lemma bit_length_0: "bit_length 0 = 0"
  by (simp add: bit_length.simps)

lemma bit_length_double: "0 < a \<Longrightarrow> bit_length (2 * a) = Suc (bit_length a)"
  by (subst bit_length.simps) simp

lemma bit_length_le: "a < 2 ^ k \<Longrightarrow> bit_length a \<le> k"
proof (induction k arbitrary: a)
  case 0
  then show ?case by (simp add: bit_length_0)
next
  case (Suc k)
  show ?case
  proof (cases "a = 0")
    case True
    then show ?thesis by (simp add: bit_length_0)
  next
    case False
    have "a div 2 < 2 ^ k" using Suc.prems by simp
    from Suc.IH[OF this] False show ?thesis
      by (subst bit_length.simps) simp
  qed
qed

lemma bit_length_gt: "2 ^ k \<le> a \<Longrightarrow> k < bit_length a"
proof (induction k arbitrary: a)
  case 0
  then show ?case by (subst bit_length.simps) simp
next
  case (Suc k)
  have "2 ^ k \<le> a div 2" using Suc.prems by simp
  moreover have "a \<noteq> 0"
  proof
    assume "a = 0"
    with Suc.prems show False by simp
  qed
  ultimately show ?case
    using Suc.IH[of "a div 2"] by (subst bit_length.simps) simp
qed

lemma bit_length_eq: "2 ^ k \<le> a \<Longrightarrow> a < 2 ^ Suc k \<Longrightarrow> bit_length a = Suc k"
  using bit_length_le[of a "Suc k"] bit_length_gt[of k a] by simp

lemma bit_length_scale: "0 < a \<Longrightarrow> bit_length (a * 2 ^ j) = bit_length a + j"
proof (induction j)
  case 0
  then show ?case by simp
next
  case (Suc j)
  have "bit_length (a * 2 ^ Suc j) = bit_length (2 * (a * 2 ^ j))"
    by (simp add: mult.commute mult.left_commute)
  also have "\<dots> = Suc (bit_length (a * 2 ^ j))"
    using Suc.prems by (intro bit_length_double) simp
  finally show ?case using Suc by simp
qed

lemma round_exact:
  assumes "2 ^ (bit_length (nat \<bar>k\<bar>) - 53) dvd nat \<bar>k\<bar>"
  shows "round_nearest_even k = k"
proof -
  let ?a = "nat \<bar>k\<bar>" and ?q = "bit_length (nat \<bar>k\<bar>) - 53"
  have r: "?a mod 2 ^ ?q = 0" using assms by simp
  have d: "?a div 2 ^ ?q * 2 ^ ?q = ?a" using assms by simp
  have "sgn k * int ?a = k" by (simp add: sgn_if)
  then show ?thesis
    unfolding round_nearest_even_def Let_def r by (simp add: d)
qed

lemma round_small: "\<bar>k\<bar> < 2 ^ 53 \<Longrightarrow> round_nearest_even k = k"
proof (rule round_exact)
  assume "\<bar>k\<bar> < 2 ^ 53"
  then have "nat \<bar>k\<bar> < 2 ^ 53" by (simp add: nat_less_iff)
  then have "bit_length (nat \<bar>k\<bar>) \<le> 53" by (rule bit_length_le)
  then show "2 ^ (bit_length (nat \<bar>k\<bar>) - 53) dvd nat \<bar>k\<bar>" by simp
qed

lemma round_scale: "round_nearest_even (n * 2 ^ j) = round_nearest_even n * 2 ^ j"
proof (cases "n = 0")
  case True
  then show ?thesis by (simp add: round_nearest_even_def)
next
  case False
  let ?a = "nat \<bar>n\<bar>"
  have a: "0 < ?a" using False by simp
  have abs: "nat \<bar>n * 2 ^ j\<bar> = ?a * 2 ^ j"
    by (simp add: abs_mult nat_mult_distrib)
  have bl: "bit_length (?a * 2 ^ j) = bit_length ?a + j"
    using a by (rule bit_length_scale)
  show ?thesis
  proof (cases "53 \<le> bit_length ?a")
    case True
    let ?q = "bit_length ?a - 53"
    have q: "bit_length ?a + j - 53 = ?q + j" using True by simp
    have dv: "(?a * 2 ^ j) div 2 ^ (?q + j) = ?a div 2 ^ ?q"
      by (simp add: power_add)
    have md: "(?a * 2 ^ j) mod 2 ^ (?q + j) = (?a mod 2 ^ ?q) * 2 ^ j"
      by (simp add: power_add)
    have c1: "(2::nat) ^ (?q + j) < 2 * ((?a mod 2 ^ ?q) * 2 ^ j) \<longleftrightarrow> 2 ^ ?q < 2 * (?a mod 2 ^ ?q)"
      by (simp add: power_add)
    have c2: "2 * ((?a mod 2 ^ ?q) * 2 ^ j) = (2::nat) ^ (?q + j) \<longleftrightarrow> 2 * (?a mod 2 ^ ?q) = 2 ^ ?q"
      by (simp add: power_add)
    have sg: "sgn (n * 2 ^ j) = sgn n" by (simp add: sgn_mult)
    show ?thesis
      unfolding round_nearest_even_def Let_def abs bl q dv md c1 c2 sg
      by (simp add: power_add)
  next
    case False
    then have "bit_length ?a + j - 53 \<le> j" by simp
    then have "2 ^ (bit_length ?a + j - 53) dvd ?a * 2 ^ j"
      by (simp add: le_imp_power_dvd dvd_mult)
    then have l: "round_nearest_even (n * 2 ^ j) = n * 2 ^ j"
      by (intro round_exact) (simp only: abs bl)
    have "bit_length ?a - 53 = 0" using False by simp
    then have "round_nearest_even n = n"
      by (intro round_exact) simp
    with l show ?thesis by simp
  qed
qed

lemma round_le: 
  assumes "\<bar>k\<bar> \<le> 2 ^ 53"
  shows "round_nearest_even k = k"
proof (cases "\<bar>k\<bar> < 2 ^ 53")
  case True
  then show ?thesis by (rule round_small)
next
  case False
  with assms have "\<bar>k\<bar> = 2 ^ 53" by simp
  then have "k = 1 * 2 ^ 53 \<or> k = (- 1) * 2 ^ 53" by (simp add: abs_if split: if_splits)
  moreover have "round_nearest_even (1 * 2 ^ 53) = 1 * 2 ^ 53"
    by (subst round_scale) (simp add: round_small)
  moreover have "round_nearest_even ((- 1) * 2 ^ 53) = (- 1) * 2 ^ 53"
    by (subst round_scale) (simp add: round_small)
  ultimately show ?thesis by auto
qed

lemma from_int_eq: "from_int a = from_int b \<longleftrightarrow> a = b"
  by (simp add: from_int_def)

lemma abs_scaled: "\<bar>r::int\<bar> < 2 ^ e \<Longrightarrow> \<bar>r * 2 ^ j\<bar> < 2 ^ (e + j)"
  by (simp add: abs_mult power_add)

lemma to_double_from_int:
  assumes "\<bar>round_nearest_even n\<bar> < 2 ^ 1024"
  shows "to_double (n * 2 ^ 1074) = from_int (round_nearest_even n)"
proof -
  have "\<bar>round_nearest_even n * 2 ^ 1074\<bar> < 2 ^ (1024 + 1074)"
    using assms by (rule abs_scaled)
  then have "\<not> 2 ^ 2098 \<le> round_nearest_even n * 2 ^ 1074"
    and "\<not> round_nearest_even n * 2 ^ 1074 \<le> - (2 ^ 2098)"
    by simp_all
  then show ?thesis
    unfolding to_double_def Let_def round_scale from_int_def by (simp only: if_False)
qed

lemma add_from_int:
  "\<bar>round_nearest_even (a + b)\<bar> < 2 ^ 1024 \<Longrightarrow>
     number_add (from_int a) (from_int b) = from_int (round_nearest_even (a + b))"
  using to_double_from_int[of "a + b"] by (simp add: from_int_def distrib_right)

lemma sub_from_int:
  "\<bar>round_nearest_even (a - b)\<bar> < 2 ^ 1024 \<Longrightarrow>
     number_sub (from_int a) (from_int b) = from_int (round_nearest_even (a - b))"
  using to_double_from_int[of "a - b"]
  by (simp add: from_int_def number_sub_def left_diff_distrib)

lemma add_exact:
  "\<bar>a + b\<bar> \<le> 2 ^ 53 \<Longrightarrow> number_add (from_int a) (from_int b) = from_int (a + b)"
  using add_from_int[of a b] by (simp add: round_le)

lemma sub_exact:
  "\<bar>a - b\<bar> \<le> 2 ^ 53 \<Longrightarrow> number_sub (from_int a) (from_int b) = from_int (a - b)"
  using sub_from_int[of a b] by (simp add: round_le)

lemma number_less_from_int: "number_less (from_int a) (from_int b) \<longleftrightarrow> a < b"
  by (simp add: from_int_def)

lemma is_double_from_int:
  assumes "\<bar>n\<bar> \<le> 2 ^ 53"
  shows "is_double (from_int n)"
proof -
  have "round_nearest_even (n * 2 ^ 1074) = n * 2 ^ 1074"
    unfolding round_scale by (simp only: round_le[OF assms])
  moreover have "\<bar>n\<bar> < 2 ^ 1024" using assms by simp
  then have "\<bar>n * 2 ^ 1074\<bar> < 2 ^ (1024 + 1074)" by (rule abs_scaled)
  then have "\<bar>n * 2 ^ 1074\<bar> < 2 ^ 2098" by simp
  ultimately show ?thesis
    unfolding from_int_def is_double.simps by (rule conjI)
qed

lemma abs_le_sum_list: "b \<in> set bills \<Longrightarrow> \<bar>b\<bar> \<le> sum_list (map abs (bills::int list))"
proof (induction bills)
  case Nil
  then show ?case by simp
next
  case (Cons a bills)
  have "0 \<le> sum_list (map abs bills)" by (rule sum_list_nonneg) auto
  with Cons show ?case by auto
qed

lemma foldl_exact:
  "\<bar>acc\<bar> + sum_list (map abs bills) \<le> 2 ^ 53 \<Longrightarrow>
   foldl (\<lambda>sum el. if el = from_int 25 then number_add sum (from_int 25)
                     else number_sub sum el) (from_int acc) (map from_int bills)
     = from_int (acc + bills_25 bills - bills_other bills)"
proof (induction bills arbitrary: acc)
  case Nil
  then show ?case by (simp add: bills_25_def bills_other_def)
next
  case (Cons b bills)
  show ?case
  proof (cases "b = 25")
    case True
    have "\<bar>acc + 25\<bar> + sum_list (map abs bills) \<le> 2 ^ 53"
      using Cons.prems True by simp
    moreover from this have "\<bar>acc + 25\<bar> \<le> 2 ^ 53"
      using sum_list_abs[of bills] by linarith
    ultimately show ?thesis
      using Cons.IH[of "acc + 25"] True
      by (simp add: add_exact bills_25_def bills_other_def ac_simps)
  next
    case False
    have "\<bar>acc - b\<bar> + sum_list (map abs bills) \<le> 2 ^ 53"
      using Cons.prems by simp
    moreover from this have "\<bar>acc - b\<bar> \<le> 2 ^ 53"
      using sum_list_abs[of bills] by linarith
    ultimately show ?thesis
      using Cons.IH[of "acc - b"] False
      by (simp add: sub_exact from_int_eq bills_25_def bills_other_def algebra_simps)
  qed
qed

lemma sum_list_mset_eq:
  assumes "mset xs = mset ys"
  shows "sum_list xs = sum_list (ys::int list)"
proof -
  have "sum_mset (mset xs) = sum_mset (mset ys)" using assms by simp
  then show ?thesis by (simp only: sum_mset_sum_list)
qed

lemma bills_mset:
  assumes "mset xs = mset ys"
  shows "bills_25 xs = bills_25 ys" and "bills_other xs = bills_other ys"
    and "sum_list (map abs xs) = sum_list (map abs ys)"
proof -
  have "mset (filter P xs) = mset (filter P ys)" for P
    using assms by (simp only: mset_filter)
  then show "bills_25 xs = bills_25 ys" and "bills_other xs = bills_other ys"
    unfolding bills_25_def bills_other_def by (auto intro: sum_list_mset_eq)
  have "mset (map abs xs) = mset (map abs ys)"
    using assms by (simp only: mset_map)
  then show "sum_list (map abs xs) = sum_list (map abs ys)" by (rule sum_list_mset_eq)
qed

text \<open>
  C10, as amended. For a queue of integer bills whose absolute values sum to at most
  \<open>2^53\<close>, every bill is a double, \<^verbatim>\<open>sellTickets(queue)\<close> is true exactly when the bills
  equal to 25 sum to at least as much as all the other bills, and the answer is the same
  for every reordering of the queue: no prefix of the queue is examined on its own.
\<close>

theorem sellTickets_aggregate_exact:
  assumes "sum_list (map abs bills) \<le> 2 ^ 53"
  shows "list_all is_double (map from_int bills)
       \<and> (sellTickets (map from_int bills) \<longleftrightarrow> bills_other bills \<le> bills_25 bills)
       \<and> (\<forall>bills'. mset bills' = mset bills \<longrightarrow>
             sellTickets (map from_int bills') = sellTickets (map from_int bills))"
proof -
  have agg: "sellTickets (map from_int bs) \<longleftrightarrow> bills_other bs \<le> bills_25 bs"
    if "sum_list (map abs bs) \<le> 2 ^ 53" for bs
    using foldl_exact[of 0 bs] that
    by (simp add: sellTickets_def Let_def number_less_from_int)
  have dbl: "list_all is_double (map from_int bills)"
  proof -
    have "\<bar>b\<bar> \<le> 2 ^ 53" if "b \<in> set bills" for b
    proof -
      have "\<bar>b\<bar> \<le> sum_list (map abs bills)"
        using that by (rule abs_le_sum_list)
      with assms show ?thesis by simp
    qed
    then show ?thesis by (simp add: list_all_iff is_double_from_int)
  qed
  have perm: "sellTickets (map from_int bs) = sellTickets (map from_int bills)"
    if "mset bs = mset bills" for bs
    using agg[of bs] agg[OF assms] bills_mset[OF that] assms by simp
  show ?thesis using agg[OF assms] dbl perm by blast
qed

text \<open>
  The queues 25, 25, 50 and 25, 100 of the documentation, and 50, 25, 25: the first
  customer cannot be given change, and the answer is the one of the queue 25, 25, 50.
\<close>

theorem sellTickets_aggregate_exact_witness:
  "sum_list (map abs [25, 25, 50 :: int]) \<le> 2 ^ 53
   \<and> sellTickets (map from_int [25, 25, 50])
   \<and> mset [50, 25, 25] = mset [25, 25, 50 :: int]
   \<and> sellTickets (map from_int [50, 25, 25])
   \<and> sum_list (map abs [25, 100 :: int]) \<le> 2 ^ 53
   \<and> \<not> sellTickets (map from_int [25, 100])"
proof -
  have b1: "sum_list (map abs [25, 25, 50 :: int]) \<le> 2 ^ 53" by simp
  have b2: "sum_list (map abs [25, 100 :: int]) \<le> 2 ^ 53" by simp
  have m: "mset [50, 25, 25] = mset [25, 25, 50 :: int]" by simp
  note t1 = sellTickets_aggregate_exact [OF b1]
  note t2 = sellTickets_aggregate_exact [OF b2]
  from t1 have s1: "sellTickets (map from_int [25, 25, 50])"
    by (simp add: bills_other_def bills_25_def)
  from t1 m have "sellTickets (map from_int [50, 25, 25]) = sellTickets (map from_int [25, 25, 50])"
    by blast
  with s1 have s2: "sellTickets (map from_int [50, 25, 25])" by simp
  from t2 have s3: "\<not> sellTickets (map from_int [25, 100])"
    by (simp add: bills_other_def bills_25_def)
  from b1 b2 m s1 s2 s3 show ?thesis by blast
qed

lemma round_tie: "round_nearest_even 9007199254740993 = 9007199254740992"
proof -
  have "bit_length 9007199254740993 = Suc 53"
    by (rule bit_length_eq) simp_all
  then show ?thesis
    by (simp add: round_nearest_even_def Let_def)
qed

lemma round_tie_neg: "round_nearest_even (- 9007199254740993) = - 9007199254740992"
proof -
  have "bit_length 9007199254740993 = Suc 53"
    by (rule bit_length_eq) simp_all
  then show ?thesis
    by (simp add: round_nearest_even_def Let_def)
qed

text \<open>
  C10 as stated, for every queue of numbers, fails where a running sum is rounded. In
  the queue \<open>-(2^53 - 1), -2, 2^53 - 1, 2\<close> both sums of the claim are 0, and the running
  sum goes \<open>2^53 - 1\<close>, \<open>2^53\<close> (for \<open>2^53 + 1\<close>, a tie), 1, -1: the answer is false, and
  true for the same bills in another order. In the queue \<open>2^53 - 1, 2, -2^53\<close> the other
  bills sum to 1 and the answer is true.
\<close>

theorem sellTickets_aggregate_counterexample:
  "list_all is_double (map from_int [- 9007199254740991, - 2, 9007199254740991, 2])
   \<and> mset [- 9007199254740991, 9007199254740991, - 2, 2]
       = mset [- 9007199254740991, - 2, 9007199254740991, 2 :: int]
   \<and> bills_other [- 9007199254740991, - 2, 9007199254740991, 2]
       \<le> bills_25 [- 9007199254740991, - 2, 9007199254740991, 2]
   \<and> \<not> sellTickets (map from_int [- 9007199254740991, - 2, 9007199254740991, 2])
   \<and> sellTickets (map from_int [- 9007199254740991, 9007199254740991, - 2, 2])
   \<and> list_all is_double (map from_int [9007199254740991, 2, - 9007199254740992])
   \<and> bills_25 [9007199254740991, 2, - 9007199254740992]
       < bills_other [9007199254740991, 2, - 9007199254740992]
   \<and> sellTickets (map from_int [9007199254740991, 2, - 9007199254740992])"
proof -
  have d': "list_all is_double (map from_int [9007199254740991, 2, - 9007199254740992])"
    by (simp add: is_double_from_int)
  have a': "bills_25 [9007199254740991, 2, - 9007199254740992]
       < bills_other [9007199254740991, 2, - 9007199254740992]"
    by (simp add: bills_other_def bills_25_def)
  have t': "sellTickets (map from_int [9007199254740991, 2, - 9007199254740992])"
    by (simp add: sellTickets_def Let_def from_int_eq sub_from_int round_le round_tie_neg
          number_less_from_int)
  have d: "list_all is_double (map from_int [- 9007199254740991, - 2, 9007199254740991, 2])"
    by (simp add: is_double_from_int)
  have m: "mset [- 9007199254740991, 9007199254740991, - 2, 2]
       = mset [- 9007199254740991, - 2, 9007199254740991, 2 :: int]"
    by simp
  have a: "bills_other [- 9007199254740991, - 2, 9007199254740991, 2]
       \<le> bills_25 [- 9007199254740991, - 2, 9007199254740991, 2]"
    by (simp add: bills_other_def bills_25_def)
  have f: "\<not> sellTickets (map from_int [- 9007199254740991, - 2, 9007199254740991, 2])"
    by (simp add: sellTickets_def Let_def from_int_eq sub_from_int round_le round_tie
          number_less_from_int)
  have t: "sellTickets (map from_int [- 9007199254740991, 9007199254740991, - 2, 2])"
    by (simp add: sellTickets_def Let_def from_int_eq sub_from_int round_le
          number_less_from_int)
  from d m a f t d' a' t' show ?thesis by blast
qed

section \<open>Properties of one builder\<close>

subsection \<open>One call on an object that holds a valid sequence\<close>

lemma last_rank_snoc: "last_rank (hist @ [c]) = rank (kind c)"
  by (simp add: last_rank_def)

lemma sorted_le_last: "sorted xs \<Longrightarrow> (x::nat) \<in> set xs \<Longrightarrow> x \<le> last xs"
  by (induction xs) auto

lemma rank_le_last:
  "respects_order hist \<Longrightarrow> c \<in> set hist \<Longrightarrow> rank (kind c) \<le> last_rank hist"
  unfolding respects_order_def last_rank_def
  using sorted_le_last[of "map (\<lambda>c. rank (kind c)) hist" "rank (kind c)"]
  by (auto simp: last_map)

lemma respects_order_snoc:
  "respects_order (hist @ [c]) \<longleftrightarrow> respects_order hist \<and> \<not> rank (kind c) < last_rank hist"
proof (cases "hist = []")
  case True
  then show ?thesis by (simp add: respects_order_def last_rank_def)
next
  case False
  have "respects_order hist \<Longrightarrow>
          (\<forall>x\<in>set hist. rank (kind x) \<le> rank (kind c)) \<longleftrightarrow> last_rank hist \<le> rank (kind c)"
    using rank_le_last[of hist] False
    by (auto simp: last_rank_def intro: order_trans)
  then show ?thesis
    by (auto simp: respects_order_def sorted_append not_less)
qed

lemma respects_singletons_snoc:
  "respects_singletons (hist @ [c]) \<longleftrightarrow>
     respects_singletons hist \<and> \<not> (singleton (kind c) \<and> kind c \<in> kind ` set hist)"
  by (auto simp: respects_singletons_def)

lemma respects_order_prefix: "respects_order (xs @ ys) \<Longrightarrow> respects_order xs"
  by (simp add: respects_order_def sorted_append)

lemma respects_singletons_prefix: "respects_singletons (xs @ ys) \<Longrightarrow> respects_singletons xs"
  by (simp add: respects_singletons_def)

lemma respects_nil: "respects_order []" "respects_singletons []"
  by (simp_all add: respects_order_def respects_singletons_def)

lemma fresh_holding: "constructor\<lparr>result := s\<rparr> = holding s []"
  by (simp add: holding_def constructor_def last_rank_def)

lemma constructor_holding: "constructor = holding [] []"
  by (simp add: holding_def constructor_def last_rank_def)

lemma reset_constructor: "reset this = constructor"
  by (cases this) (simp add: reset_def constructor_def)

text \<open>
  The second throw of \<^verbatim>\<open>checkUsage\<close> comes after the assignment to \<^verbatim>\<open>previousOrder\<close>;
  on an object that holds a valid sequence the assignment writes the value the field
  already has, because a singleton kind that is present and passes the order check has
  the rank of the last fragment.
\<close>

lemma checked_append_holding:
  assumes "respects_order hist" and "kind c = m" and "m \<noteq> Combinator" and "formatted c = frag"
  shows "checked_append m frag (holding s hist) =
     (if rank m < last_rank hist then (Inl OrderingError, holding s hist)
      else if singleton m \<and> m \<in> kind ` set hist
           then (Inl DuplicateError, holding s hist)
           else (Inr (), holding s (hist @ [c])))"
proof -
  have dup: "holding s hist\<lparr>previousOrder := rank m\<rparr> = holding s hist"
    if "\<not> rank m < last_rank hist" "m \<in> kind ` set hist"
  proof -
    from that(2) obtain d where "d \<in> set hist" "kind d = m" by auto
    with rank_le_last[OF assms(1), of d] that(1) have "last_rank hist = rank m" by simp
    then show ?thesis by (simp add: holding_def)
  qed
  show ?thesis
    using assms(2-4) dup
    by (cases m)
       (auto simp: checked_append_def checkUsage_def repeatable_def holding_def Let_def
          last_rank_snoc)
qed

lemma invoke_holding:
  assumes "respects_order hist"
  shows "invoke c (holding s hist) =
     (if rank (kind c) < last_rank hist then (Inl OrderingError, holding s hist)
      else if singleton (kind c) \<and> kind c \<in> kind ` set hist
           then (Inl DuplicateError, holding s hist)
           else (Inr (), holding s (hist @ [c])))"
  using checked_append_holding[OF assms, of c "kind c" "formatted c" s]
  by (cases c)
     (simp_all add: element_def id_m_def class_m_def attr_def pseudoClass_def pseudoElement_def)

subsection \<open>Sequences of calls\<close>

lemma chain_holding:
  "respects_order (hist @ cs) \<Longrightarrow> respects_singletons (hist @ cs) \<Longrightarrow>
     chain cs (holding s hist) = (Inr (), holding s (hist @ cs))"
proof (induction cs arbitrary: hist)
  case Nil
  then show ?case by simp
next
  case (Cons c cs)
  have ro: "respects_order ((hist @ [c]) @ cs)" and rs: "respects_singletons ((hist @ [c]) @ cs)"
    using Cons.prems by simp_all
  have "respects_order (hist @ [c])" "respects_singletons (hist @ [c])"
    using respects_order_prefix[OF ro] respects_singletons_prefix[OF rs] by simp_all
  then have step: "invoke c (holding s hist) = (Inr (), holding s (hist @ [c]))"
    by (simp add: respects_order_snoc respects_singletons_snoc invoke_holding)
  show ?case
    using Cons.IH[OF ro rs] by (simp add: step)
qed

lemma attempt_all_holding:
  "respects_order hist \<Longrightarrow> respects_singletons hist \<Longrightarrow>
     attempt_all cs (holding s hist) = holding s (hist @ accepted cs (holding s hist))
     \<and> respects_order (hist @ accepted cs (holding s hist))
     \<and> respects_singletons (hist @ accepted cs (holding s hist))"
proof (induction cs arbitrary: hist)
  case Nil
  then show ?case by simp
next
  case (Cons c cs)
  show ?case
  proof (cases "fst (invoke c (holding s hist))")
    case (Inl e)
    then have "invoke c (holding s hist) = (Inl e, holding s hist)"
      using invoke_holding[OF Cons.prems(1), of c s] by (auto split: if_splits)
    then show ?thesis using Cons.IH[OF Cons.prems] by simp
  next
    case (Inr u)
    then have ok: "\<not> rank (kind c) < last_rank hist"
        "\<not> (singleton (kind c) \<and> kind c \<in> kind ` set hist)"
      and step: "invoke c (holding s hist) = (Inr (), holding s (hist @ [c]))"
      using invoke_holding[OF Cons.prems(1), of c s] by (auto split: if_splits)
    have "respects_order (hist @ [c])" "respects_singletons (hist @ [c])"
      using ok Cons.prems by (simp_all add: respects_order_snoc respects_singletons_snoc)
    from Cons.IH[OF this] show ?thesis by (simp add: step)
  qed
qed

lemma attempt_all_fresh:
  "attempt_all cs (constructor\<lparr>result := s\<rparr>)
       = holding s (accepted cs (constructor\<lparr>result := s\<rparr>))
     \<and> respects_order (accepted cs (constructor\<lparr>result := s\<rparr>))
     \<and> respects_singletons (accepted cs (constructor\<lparr>result := s\<rparr>))"
  using attempt_all_holding[of "[]" cs s] by (simp add: fresh_holding respects_nil)

section \<open>Objects in the store\<close>

lemma on_eq: "on p body h = (fst (body (h ! p)), h[p := snd (body (h ! p))])"
  by (simp add: on_def split: prod.split)

lemma on_stringify: "on p stringify h = (result (h ! p), h[p := constructor])"
  by (simp add: on_eq stringify_def reset_constructor)

lemma method_call_eq:
  "method_call p c h =
     (case invoke c (h ! p) of
        (Inl e, b) \<Rightarrow> (Inl e, h[p := b])
      | (Inr u, b) \<Rightarrow> (Inr p, h[p := b]))"
  by (simp add: method_call_def on_eq split: sum.split prod.split)

lemma method_call_snd: "snd (method_call p c h) = h[p := snd (invoke c (h ! p))]"
  by (simp add: method_call_eq split: sum.split prod.split)

lemma method_call_fst_Inl: "fst (method_call p c h) = Inl e \<longleftrightarrow> fst (invoke c (h ! p)) = Inl e"
  by (simp add: method_call_eq split: sum.split prod.split)

lemma chained_calls_chain:
  "p < length h \<Longrightarrow>
   chained_calls p cs h =
     (case chain cs (h ! p) of
        (Inl e, b) \<Rightarrow> (Inl e, h[p := b])
      | (Inr u, b) \<Rightarrow> (Inr p, h[p := b]))"
proof (induction cs arbitrary: h)
  case Nil
  then show ?case by simp
next
  case (Cons c cs)
  show ?case
  proof (cases "invoke c (h ! p)")
    case (Pair r b)
    show ?thesis
    proof (cases r)
      case (Inl e)
      with Pair show ?thesis by (simp add: method_call_eq)
    next
      case (Inr u)
      have "p < length (h[p := b])" using Cons.prems by simp
      from Cons.IH[OF this] Pair Inr Cons.prems show ?thesis
        by (simp add: method_call_eq split: prod.split sum.split)
    qed
  qed
qed

lemma builder_expression_chain:
  "builder_expression c cs h =
     (case chain (c # cs) constructor of
        (Inl e, b) \<Rightarrow> (Inl e, h @ [b])
      | (Inr u, b) \<Rightarrow> (Inr (length h), h @ [b]))"
proof (cases "invoke c constructor")
  case (Pair r b)
  show ?thesis
  proof (cases r)
    case (Inl e)
    with Pair show ?thesis
      by (simp add: builder_expression_def cssSelectorBuilder_method_def
            new_CssSelectorBuilder_def method_call_eq)
  next
    case (Inr u)
    have "length h < length ((h @ [constructor])[length h := b])" by simp
    from chained_calls_chain[OF this, of cs] Pair Inr show ?thesis
      by (simp add: builder_expression_def cssSelectorBuilder_method_def
            new_CssSelectorBuilder_def method_call_eq
            split: prod.split sum.split)
  qed
qed

lemma selector_expression_chain:
  "selector_expression c cs h =
     (case chain (c # cs) constructor of
        (Inl e, b) \<Rightarrow> (Inl e, h @ [b])
      | (Inr u, b) \<Rightarrow> (Inr (result b), h @ [constructor]))"
  unfolding selector_expression_def builder_expression_chain
  by (simp add: on_stringify split: prod.split sum.split)

lemma combine_eq:
  assumes "p1 < length h" and "p2 < length h"
  shows "combine this p1 c p2 h =
     (length h,
      (h[p1 := constructor, p2 := constructor])
       @ [constructor\<lparr>result :=
            result (h ! p1) @ '' '' @ c @ '' '' @ (if p1 = p2 then [] else result (h ! p2))\<rparr>])"
  using assms
  by (simp add: combine_def new_CssSelectorBuilder_def on_stringify Let_def
        nth_list_update nth_append list_update_append constructor_def)

lemma facade_combine_eq:
  assumes "p1 < length h" and "p2 < length h"
  shows "cssSelectorBuilder_combine p1 c p2 h =
     (Suc (length h),
      (h[p1 := constructor, p2 := constructor])
       @ [constructor, constructor\<lparr>result :=
            result (h ! p1) @ '' '' @ c @ '' '' @ (if p1 = p2 then [] else result (h ! p2))\<rparr>])"
  using assms combine_eq[of p1 "h @ [constructor]" p2 "length h" c]
  by (simp add: cssSelectorBuilder_combine_def new_CssSelectorBuilder_def
        nth_append list_update_append)

lemma result_constructor: "result constructor = []"
  by (simp add: constructor_def)

lemma facade_combine_result:
  assumes "p1 < length h" and "p2 < length h"
    and "cssSelectorBuilder_combine p1 k p2 h = (r, h')"
  shows "r = Suc (length h)" and "length h' = Suc (Suc (length h))"
    and "result (h' ! r) =
           result (h ! p1) @ '' '' @ k @ '' '' @ (if p1 = p2 then [] else result (h ! p2))"
    and "q < length h \<Longrightarrow> result (h' ! q) = (if q = p1 \<or> q = p2 then [] else result (h ! q))"
  using assms(1,2) assms(3)[unfolded facade_combine_eq[OF assms(1,2)]]
  by (auto simp: nth_append nth_list_update result_constructor)

section \<open>The stores of the examples\<close>

lemma example_store:
  "snd (cssSelectorBuilder_method (CallElement ''a'') []) = [holding [] [CallElement ''a'']]"
  by (simp add: cssSelectorBuilder_method_def new_CssSelectorBuilder_def method_call_eq
        element_def checked_append_def checkUsage_def repeatable_def constructor_def Let_def
        holding_def last_rank_def)

lemma two_builders:
  "snd (builder_expression (CallElement ''y'') [] (snd (builder_expression (CallElement ''x'') [] [])))
     = [holding [] [CallElement ''x''], holding [] [CallElement ''y'']]"
  by (simp add: builder_expression_chain element_def checked_append_def checkUsage_def
        repeatable_def constructor_def Let_def holding_def last_rank_def)

lemma three_builders:
  "snd (builder_expression (CallElement ''z'') []
     (snd (builder_expression (CallElement ''y'') []
        (snd (builder_expression (CallElement ''x'') [] [])))))
     = [holding [] [CallElement ''x''], holding [] [CallElement ''y''],
        holding [] [CallElement ''z'']]"
  by (simp add: builder_expression_chain element_def checked_append_def checkUsage_def
        repeatable_def constructor_def Let_def holding_def last_rank_def)

lemma two_selectors:
  "snd (builder_expression (CallElement ''table'') [CallId ''data'']
          (snd (builder_expression (CallElement ''div'') [CallId ''main''] [])))
     = [holding [] [CallElement ''div'', CallId ''main''],
        holding [] [CallElement ''table'', CallId ''data'']]"
  by (simp add: builder_expression_chain element_def id_m_def checked_append_def checkUsage_def
        repeatable_def constructor_def Let_def holding_def last_rank_def)

section \<open>Formatting and order: claims C1 to C4 and C7\<close>

text \<open>
  C1. From a new builder, a sequence of fragment calls whose ranks never decrease and in
  which no singleton kind occurs twice runs without a throw, and \<^verbatim>\<open>stringify()\<close> then
  returns the formatted fragments joined in call order; the same for the expression
  \<^verbatim>\<open>cssSelectorBuilder.m1(v1)...mn(vn).stringify()\<close> evaluated in any store.
\<close>
theorem stringify_concatenates_formatted:
  assumes "respects_order cs" and "respects_singletons cs"
  shows "fst (chain cs constructor) = Inr ()
       \<and> fst (stringify (snd (chain cs constructor))) = concat (map formatted cs)
       \<and> (\<forall>c cs' h. cs = c # cs' \<longrightarrow>
             fst (selector_expression c cs' h) = Inr (concat (map formatted cs)))"
proof -
  have "chain cs constructor = (Inr (), holding [] cs)"
    using chain_holding[of "[]" cs "[]"] assms by (simp add: constructor_holding)
  then show ?thesis
    by (auto simp: stringify_def holding_def selector_expression_chain simp del: chain.simps)
qed

text \<open>
  The expression
  \<^verbatim>\<open>element('a').id('main').class('x').attr('href$=".png"').pseudoClass('focus').pseudoElement('before').stringify()\<close>.
\<close>
theorem stringify_concatenates_formatted_witness:
  \<open>respects_order [CallElement ''a'', CallId ''main'', CallClass ''x'', CallAttr ''href$=".png"'',
      CallPseudoClass ''focus'', CallPseudoElement ''before'']
   \<and> respects_singletons [CallElement ''a'', CallId ''main'', CallClass ''x'',
      CallAttr ''href$=".png"'', CallPseudoClass ''focus'', CallPseudoElement ''before'']
   \<and> fst (selector_expression (CallElement ''a'') [CallId ''main'', CallClass ''x'',
      CallAttr ''href$=".png"'', CallPseudoClass ''focus'', CallPseudoElement ''before''] [])
     = Inr ''a#main.x[href$=".png"]:focus::before''\<close>
  using stringify_concatenates_formatted [of \<open>[CallElement ''a'', CallId ''main'', CallClass ''x'',
      CallAttr ''href$=".png"'', CallPseudoClass ''focus'', CallPseudoElement ''before'']\<close>]
  by (simp add: respects_order_def respects_singletons_def)

text \<open>
  C2. Take a builder as the constructor, \<^verbatim>\<open>reset\<close> or \<^verbatim>\<open>combine\<close> leaves it (fresh, with
  any text \<open>s\<close>), and let a caller attempt the calls \<open>cs\<close> on it one after the other,
  catching every error. The next call throws the ordering error exactly when some
  fragment has been appended and the rank of the call is strictly below the rank of the
  fragment appended last; \<^verbatim>\<open>previousOrder\<close> is that rank, whatever was appended before.
\<close>
theorem ordering_error_iff_lower_rank:
  "(fst (invoke c (attempt_all cs (constructor\<lparr>result := s\<rparr>))) = Inl OrderingError
      \<longleftrightarrow> accepted cs (constructor\<lparr>result := s\<rparr>) \<noteq> []
          \<and> rank (kind c) < rank (kind (last (accepted cs (constructor\<lparr>result := s\<rparr>)))))
   \<and> previousOrder (attempt_all cs (constructor\<lparr>result := s\<rparr>))
         = last_rank (accepted cs (constructor\<lparr>result := s\<rparr>))"
proof -
  let ?hist = "accepted cs (constructor\<lparr>result := s\<rparr>)"
  have st: "attempt_all cs (constructor\<lparr>result := s\<rparr>) = holding s ?hist"
    and ro: "respects_order ?hist"
    using attempt_all_fresh[of cs s] by simp_all
  show ?thesis
    unfolding st invoke_holding[OF ro]
    by (simp add: last_rank_def holding_def)
qed

text \<open>
  \<^verbatim>\<open>class\<close> after \<^verbatim>\<open>class\<close> is accepted (\<^verbatim>\<open>element('div').class('a').class('b')\<close> gives
  \<^verbatim>\<open>'div.a.b'\<close>), and \<^verbatim>\<open>class\<close> after \<^verbatim>\<open>attr\<close> throws the ordering error.
\<close>
theorem ordering_error_iff_lower_rank_witness:
  "accepted [CallElement ''div'', CallClass ''a''] (constructor\<lparr>result := []\<rparr>)
       = [CallElement ''div'', CallClass ''a'']
   \<and> fst (invoke (CallClass ''b'')
            (attempt_all [CallElement ''div'', CallClass ''a''] (constructor\<lparr>result := []\<rparr>)))
       = Inr ()
   \<and> fst (selector_expression (CallElement ''div'') [CallClass ''a'', CallClass ''b''] [])
       = Inr ''div.a.b''
   \<and> accepted [CallAttr ''x''] (constructor\<lparr>result := []\<rparr>) = [CallAttr ''x'']
   \<and> fst (invoke (CallClass ''y'') (attempt_all [CallAttr ''x''] (constructor\<lparr>result := []\<rparr>)))
       = Inl OrderingError"
  using ordering_error_iff_lower_rank [of "CallClass ''y''" "[CallAttr ''x'']" "[]"]
    ordering_error_iff_lower_rank [of "CallClass ''b''" "[CallElement ''div'', CallClass ''a'']" "[]"]
  by (simp add: selector_expression_chain stringify_def element_def id_m_def class_m_def attr_def
        checked_append_def checkUsage_def repeatable_def constructor_def Let_def)

text \<open>
  C3. In the same setting, the next call throws the duplicate error exactly when its
  kind is element, id or pseudo-element, a fragment of that kind has been appended, and
  the order check passed. A call of \<^verbatim>\<open>class\<close>, \<^verbatim>\<open>attr\<close> or \<^verbatim>\<open>pseudoClass\<close> throws the
  duplicate error on no object at all.
\<close>
theorem duplicate_error_iff_singleton_repeated:
  "(fst (invoke c (attempt_all cs (constructor\<lparr>result := s\<rparr>))) = Inl DuplicateError
      \<longleftrightarrow> singleton (kind c)
          \<and> kind c \<in> kind ` set (accepted cs (constructor\<lparr>result := s\<rparr>))
          \<and> \<not> rank (kind c) < last_rank (accepted cs (constructor\<lparr>result := s\<rparr>)))
   \<and> (kind c \<in> {Class, Attr, PseudoClass} \<longrightarrow>
         (\<forall>this. fst (invoke c this) \<noteq> Inl DuplicateError))"
proof -
  let ?hist = "accepted cs (constructor\<lparr>result := s\<rparr>)"
  have st: "attempt_all cs (constructor\<lparr>result := s\<rparr>) = holding s ?hist"
    and ro: "respects_order ?hist"
    using attempt_all_fresh[of cs s] by simp_all
  have a: "fst (invoke c (attempt_all cs (constructor\<lparr>result := s\<rparr>))) = Inl DuplicateError
      \<longleftrightarrow> singleton (kind c) \<and> kind c \<in> kind ` set ?hist \<and> \<not> rank (kind c) < last_rank ?hist"
    unfolding st invoke_holding[OF ro] by simp
  have b: "fst (invoke c this) \<noteq> Inl DuplicateError"
    if "kind c \<in> {Class, Attr, PseudoClass}" for this
    using that
    by (cases c) (simp_all add: class_m_def attr_def pseudoClass_def checked_append_def
          checkUsage_def repeatable_def Let_def)
  show ?thesis using a b by blast
qed

text \<open>\<^verbatim>\<open>element\<close> twice throws the duplicate error; a third \<^verbatim>\<open>class\<close> does not.\<close>
theorem duplicate_error_iff_singleton_repeated_witness:
  "accepted [CallElement ''a''] (constructor\<lparr>result := []\<rparr>) = [CallElement ''a'']
   \<and> fst (invoke (CallElement ''b'') (attempt_all [CallElement ''a''] (constructor\<lparr>result := []\<rparr>)))
       = Inl DuplicateError
   \<and> kind (CallClass ''z'') \<in> {Class, Attr, PseudoClass}
   \<and> fst (invoke (CallClass ''z'')
            (attempt_all [CallClass ''x'', CallClass ''y''] (constructor\<lparr>result := []\<rparr>)))
       \<noteq> Inl DuplicateError"
  using duplicate_error_iff_singleton_repeated [of "CallElement ''b''" "[CallElement ''a'']" "[]"]
    duplicate_error_iff_singleton_repeated [of "CallClass ''z''" "[CallClass ''x'', CallClass ''y'']" "[]"]
  by (simp add: element_def class_m_def checked_append_def checkUsage_def repeatable_def
        constructor_def Let_def last_rank_def)

lemma wellformed_fresh: "wellformed (constructor\<lparr>result := s\<rparr>)"
  unfolding wellformed_def using fresh_holding respects_nil by blast

lemma wellformed_constructor: "wellformed constructor"
  unfolding wellformed_def using constructor_holding respects_nil by blast

lemma wellformed_invoke:
  assumes "wellformed b"
  shows "wellformed (snd (invoke c b))"
proof -
  from assms obtain s hist where b: "b = holding s hist" and ro: "respects_order hist"
    and rs: "respects_singletons hist" unfolding wellformed_def by blast
  show ?thesis
  proof (cases "fst (invoke c b)")
    case (Inl e)
    then have "snd (invoke c b) = holding s hist"
      unfolding b invoke_holding[OF ro] by (auto split: if_splits)
    then show ?thesis unfolding wellformed_def using ro rs by blast
  next
    case (Inr u)
    then have "snd (invoke c b) = holding s (hist @ [c])"
      and "respects_order (hist @ [c])" and "respects_singletons (hist @ [c])"
      unfolding b invoke_holding[OF ro] respects_order_snoc respects_singletons_snoc
      using ro rs by (auto split: if_splits)
    then show ?thesis unfolding wellformed_def by blast
  qed
qed

lemma wellformed_failure:
  assumes "wellformed b" and "fst (invoke c b) = Inl e"
  shows "snd (invoke c b) = b"
proof -
  from assms(1) obtain s hist where b: "b = holding s hist" and ro: "respects_order hist"
    unfolding wellformed_def by blast
  show ?thesis
    using assms(2) unfolding b invoke_holding[OF ro] by (auto split: if_splits)
qed

lemma list_all_update: "list_all P xs \<Longrightarrow> P x \<Longrightarrow> list_all P (xs[i := x])"
  by (metis list_all_iff set_update_subset_insert subsetD insertE)

lemma reachable_wellformed: "reachable h \<Longrightarrow> list_all wellformed h"
proof (induction rule: reachable.induct)
  case start
  then show ?case by simp
next
  case (allocated h)
  then show ?case by (simp add: new_CssSelectorBuilder_def wellformed_constructor)
next
  case (called h p c)
  then have "wellformed (h ! p)" by (simp add: list_all_length)
  then have "wellformed (snd (invoke c (h ! p)))" by (rule wellformed_invoke)
  with called.IH show ?case by (simp add: method_call_snd list_all_update)
next
  case (stringified h p)
  then show ?case
    by (simp add: on_stringify list_all_update wellformed_constructor)
next
  case (combined h this selector1 selector2 combinator)
  then show ?case
    by (simp add: combine_eq list_all_update wellformed_constructor wellformed_fresh)
qed

text \<open>
  C4. In every store a program can reach, a fragment call that throws leaves the whole
  store, and so every field of the builder it was called on, as it was before the call.
\<close>
theorem failing_append_leaves_state:
  assumes "reachable h" and "p < length h" and "fst (method_call p c h) = Inl e"
  shows "snd (method_call p c h) = h"
proof -
  have "wellformed (h ! p)"
    using reachable_wellformed[OF assms(1)] assms(2) by (simp add: list_all_length)
  moreover have "fst (invoke c (h ! p)) = Inl e"
    using assms(3) by (simp add: method_call_fst_Inl)
  ultimately have "snd (invoke c (h ! p)) = h ! p" by (rule wellformed_failure)
  then show ?thesis by (simp add: method_call_snd)
qed

text \<open>After \<^verbatim>\<open>cssSelectorBuilder.element('a')\<close>, the call \<^verbatim>\<open>.element('b')\<close> on the same builder.\<close>
theorem failing_append_leaves_state_witness:
  "reachable (snd (cssSelectorBuilder_method (CallElement ''a'') []))
   \<and> 0 < length (snd (cssSelectorBuilder_method (CallElement ''a'') []))
   \<and> fst (method_call 0 (CallElement ''b'') (snd (cssSelectorBuilder_method (CallElement ''a'') [])))
       = Inl DuplicateError
   \<and> snd (method_call 0 (CallElement ''b'') (snd (cssSelectorBuilder_method (CallElement ''a'') [])))
       = snd (cssSelectorBuilder_method (CallElement ''a'') [])"
proof -
  let ?h = "snd (cssSelectorBuilder_method (CallElement ''a'') [])"
  have "reachable (snd (new_CssSelectorBuilder []))"
    by (rule reachable.allocated) (rule reachable.start)
  then have "reachable (snd (method_call 0 (CallElement ''a'') (snd (new_CssSelectorBuilder []))))"
    by (rule reachable.called) (simp add: new_CssSelectorBuilder_def)
  then have r: "reachable ?h"
    by (simp add: cssSelectorBuilder_method_def new_CssSelectorBuilder_def)
  have l: "0 < length ?h" by (simp add: example_store)
  have f: "fst (method_call 0 (CallElement ''b'') ?h) = Inl DuplicateError"
    by (simp add: example_store method_call_eq element_def checked_append_def checkUsage_def
          repeatable_def holding_def Let_def last_rank_def)
  from failing_append_leaves_state [OF r l f] r l f show ?thesis by simp
qed

text \<open>
  C7. \<^verbatim>\<open>stringify()\<close> returns the accumulated text and leaves the object equal to a newly
  constructed one: empty text, \<^verbatim>\<open>previousOrder\<close> 0, no flag set; so every later sequence of
  calls runs on it as on a new builder.
\<close>
theorem stringify_resets_to_fresh:
  "fst (stringify this) = result this
   \<and> snd (stringify this) = constructor
   \<and> result (snd (stringify this)) = []
   \<and> previousOrder (snd (stringify this)) = 0
   \<and> fst (elementUsed (snd (stringify this))) = False
   \<and> fst (idUsed (snd (stringify this))) = False
   \<and> fst (pseudoElementUsed (snd (stringify this))) = False
   \<and> (\<forall>cs. chain cs (snd (stringify this)) = chain cs constructor)
   \<and> (\<forall>cs. attempt_all cs (snd (stringify this)) = attempt_all cs constructor)"
proof -
  have a: "snd (stringify this) = constructor"
    by (simp add: stringify_def reset_constructor)
  have b: "fst (stringify this) = result this"
    by (simp add: stringify_def)
  show ?thesis unfolding a b by (simp add: constructor_def)
qed

text \<open>After \<^verbatim>\<open>element('a').pseudoElement('before').stringify()\<close>, \<^verbatim>\<open>element\<close> is accepted again.\<close>
theorem stringify_resets_to_fresh_witness:
  "fst (stringify (snd (chain [CallElement ''a'', CallPseudoElement ''before''] constructor)))
     = ''a::before''
   \<and> snd (stringify (snd (chain [CallElement ''a'', CallPseudoElement ''before''] constructor)))
     = constructor
   \<and> fst (invoke (CallElement ''b'')
        (snd (stringify (snd (chain [CallElement ''a'', CallPseudoElement ''before''] constructor)))))
     = Inr ()"
  using stringify_resets_to_fresh
    [of "snd (chain [CallElement ''a'', CallPseudoElement ''before''] constructor)"]
  by (simp add: element_def pseudoElement_def checked_append_def checkUsage_def repeatable_def
        constructor_def Let_def)

section \<open>Combining: claims C5, C6, C8 and C9\<close>

text \<open>
  C5. \<^verbatim>\<open>combine(selector1, combinator, selector2)\<close> returns a reference to a new object
  whose text is what \<^verbatim>\<open>selector1.stringify()\<close> returned, a space, the combinator, a space,
  and what \<^verbatim>\<open>selector2.stringify()\<close>, called after it, returned. The first is the text of
  \<^verbatim>\<open>selector1\<close>; the second is the text of \<^verbatim>\<open>selector2\<close> when the two are different
  objects. The same holds through \<^verbatim>\<open>cssSelectorBuilder.combine\<close> followed by \<^verbatim>\<open>stringify()\<close>.
\<close>
theorem combine_joins_finalized_strings:
  assumes "selector1 < length h" and "selector2 < length h"
  shows "result (snd (combine this selector1 combinator selector2 h)
                  ! fst (combine this selector1 combinator selector2 h))
           = fst (on selector1 stringify h) @ '' '' @ combinator @ '' '' @
             fst (on selector2 stringify (snd (on selector1 stringify h)))
       \<and> fst (on selector1 stringify h) = result (h ! selector1)
       \<and> (selector1 \<noteq> selector2 \<longrightarrow>
            fst (on selector2 stringify (snd (on selector1 stringify h))) = result (h ! selector2))
       \<and> fst (combine this selector1 combinator selector2 h) = length h
       \<and> fst (on (fst (cssSelectorBuilder_combine selector1 combinator selector2 h)) stringify
                 (snd (cssSelectorBuilder_combine selector1 combinator selector2 h)))
           = fst (on selector1 stringify h) @ '' '' @ combinator @ '' '' @
             fst (on selector2 stringify (snd (on selector1 stringify h)))"
  using assms
  by (simp add: combine_eq facade_combine_eq on_stringify nth_append constructor_def)

text \<open>
  \<^verbatim>\<open>combine(element('div').id('main'), '+', element('table').id('data')).stringify()\<close>.
\<close>
theorem combine_joins_finalized_strings_witness:
  "0 < length (snd (builder_expression (CallElement ''table'') [CallId ''data'']
                 (snd (builder_expression (CallElement ''div'') [CallId ''main''] []))))
   \<and> 1 < length (snd (builder_expression (CallElement ''table'') [CallId ''data'']
                 (snd (builder_expression (CallElement ''div'') [CallId ''main''] []))))
   \<and> fst (on (fst (cssSelectorBuilder_combine 0 ''+'' 1
                (snd (builder_expression (CallElement ''table'') [CallId ''data'']
                   (snd (builder_expression (CallElement ''div'') [CallId ''main''] []))))))
            stringify
            (snd (cssSelectorBuilder_combine 0 ''+'' 1
                (snd (builder_expression (CallElement ''table'') [CallId ''data'']
                   (snd (builder_expression (CallElement ''div'') [CallId ''main''] [])))))))
       = ''div#main + table#data''"
proof -
  let ?h = "snd (builder_expression (CallElement ''table'') [CallId ''data'']
                 (snd (builder_expression (CallElement ''div'') [CallId ''main''] [])))"
  have h: "?h = [holding [] [CallElement ''div'', CallId ''main''],
                 holding [] [CallElement ''table'', CallId ''data'']]"
    by (simp add: builder_expression_chain
        element_def id_m_def checked_append_def checkUsage_def repeatable_def constructor_def
        Let_def holding_def last_rank_def)
  have l: "0 < length ?h" "1 < length ?h" by (simp_all only: h) simp_all
  from combine_joins_finalized_strings [OF l, of 0 "''+''"] l show ?thesis
    by (simp add: h on_stringify holding_def)
qed

text \<open>
  C6. After \<^verbatim>\<open>combine\<close> both inputs equal a newly constructed builder, every other object
  of the store is as before, and the object returned is a new one, different from both
  inputs. A fragment call, a \<^verbatim>\<open>stringify\<close> or a \<^verbatim>\<open>combine\<close> on other objects leaves the
  returned object as it is, and a fragment call or \<^verbatim>\<open>stringify\<close> on the returned object
  leaves every other object as it is.
\<close>
theorem combine_resets_inputs_and_shares_nothing:
  assumes "selector1 < length h" and "selector2 < length h"
    and "combine this selector1 combinator selector2 h = (r, h')"
  shows "h' ! selector1 = constructor \<and> h' ! selector2 = constructor
       \<and> r = length h \<and> length h' = Suc (length h) \<and> r \<noteq> selector1 \<and> r \<noteq> selector2
       \<and> (\<forall>q<length h. q \<noteq> selector1 \<longrightarrow> q \<noteq> selector2 \<longrightarrow> h' ! q = h ! q)
       \<and> (\<forall>q c'. q \<noteq> r \<longrightarrow> snd (method_call q c' h') ! r = h' ! r)
       \<and> (\<forall>q. q \<noteq> r \<longrightarrow> snd (on q stringify h') ! r = h' ! r)
       \<and> (\<forall>t a b k. a < length h' \<longrightarrow> b < length h' \<longrightarrow> a \<noteq> r \<longrightarrow> b \<noteq> r \<longrightarrow>
             snd (combine t a k b h') ! r = h' ! r)
       \<and> (\<forall>q c'. q \<noteq> r \<longrightarrow> snd (method_call r c' h') ! q = h' ! q)
       \<and> (\<forall>q. q \<noteq> r \<longrightarrow> snd (on r stringify h') ! q = h' ! q)"
proof -
  have r: "r = length h"
    and h': "h' = (h[selector1 := constructor, selector2 := constructor])
       @ [constructor\<lparr>result := result (h ! selector1) @ '' '' @ combinator @ '' '' @
            (if selector1 = selector2 then [] else result (h ! selector2))\<rparr>]"
    using assms(3) unfolding combine_eq[OF assms(1,2)] by simp_all
  have len: "length h' = Suc (length h)" by (simp add: h')
  have inputs: "h' ! selector1 = constructor" "h' ! selector2 = constructor"
    using assms(1,2) by (simp_all add: h' nth_append nth_list_update)
  have others: "\<forall>q<length h. q \<noteq> selector1 \<longrightarrow> q \<noteq> selector2 \<longrightarrow> h' ! q = h ! q"
    by (simp add: h' nth_append)
  have frame1: "\<forall>q c'. q \<noteq> r \<longrightarrow> snd (method_call q c' h') ! r = h' ! r"
    by (simp add: method_call_snd)
  have frame2: "\<forall>q. q \<noteq> r \<longrightarrow> snd (on q stringify h') ! r = h' ! r"
    by (simp add: on_stringify)
  have frame3: "\<forall>t a b k. a < length h' \<longrightarrow> b < length h' \<longrightarrow> a \<noteq> r \<longrightarrow> b \<noteq> r \<longrightarrow>
             snd (combine t a k b h') ! r = h' ! r"
    using len r by (simp add: combine_eq nth_append)
  have frame4: "\<forall>q c'. q \<noteq> r \<longrightarrow> snd (method_call r c' h') ! q = h' ! q"
    by (simp add: method_call_snd)
  have frame5: "\<forall>q. q \<noteq> r \<longrightarrow> snd (on r stringify h') ! q = h' ! q"
    by (simp add: on_stringify)
  show ?thesis
    using r len inputs others frame1 frame2 frame3 frame4 frame5 assms(1,2) by simp
qed

text \<open>The two selectors of the example above, combined by the method of the first.\<close>
theorem combine_resets_inputs_and_shares_nothing_witness:
  "0 < length (snd (builder_expression (CallElement ''table'') [CallId ''data'']
          (snd (builder_expression (CallElement ''div'') [CallId ''main''] []))))
   \<and> 1 < length (snd (builder_expression (CallElement ''table'') [CallId ''data'']
          (snd (builder_expression (CallElement ''div'') [CallId ''main''] []))))
   \<and> combine 0 0 ''+'' 1
        (snd (builder_expression (CallElement ''table'') [CallId ''data'']
          (snd (builder_expression (CallElement ''div'') [CallId ''main''] []))))
      = (2, [constructor, constructor, constructor\<lparr>result := ''div#main + table#data''\<rparr>])
   \<and> snd (method_call 0 (CallElement ''p'')
        [constructor, constructor, constructor\<lparr>result := ''div#main + table#data''\<rparr>]) ! 2
      = constructor\<lparr>result := ''div#main + table#data''\<rparr>
   \<and> snd (on 2 stringify
        [constructor, constructor, constructor\<lparr>result := ''div#main + table#data''\<rparr>]) ! 0
      = constructor"
proof -
  let ?h = "snd (builder_expression (CallElement ''table'') [CallId ''data'']
          (snd (builder_expression (CallElement ''div'') [CallId ''main''] [])))"
  let ?h' = "[constructor, constructor, constructor\<lparr>result := ''div#main + table#data''\<rparr>]"
  have l: "0 < length ?h" "1 < length ?h"
    by (simp_all only: two_selectors) simp_all
  have c: "combine 0 0 ''+'' 1 ?h = (2, ?h')"
    unfolding two_selectors by (simp add: combine_eq holding_def)
  from combine_resets_inputs_and_shares_nothing [OF l c] l c show ?thesis
    by simp
qed

lemma invoke_result_prefix:
  "invoke c (b\<lparr>result := s @ result b\<rparr>) =
     (fst (invoke c b), (snd (invoke c b))\<lparr>result := s @ result (snd (invoke c b))\<rparr>)"
  by (cases c)
     (simp_all add: element_def id_m_def class_m_def attr_def pseudoClass_def pseudoElement_def
        checked_append_def checkUsage_def repeatable_def Let_def)

lemma chain_result_prefix:
  "chain cs (b\<lparr>result := s @ result b\<rparr>) =
     (fst (chain cs b), (snd (chain cs b))\<lparr>result := s @ result (snd (chain cs b))\<rparr>)"
proof (induction cs arbitrary: b)
  case Nil
  then show ?case by simp
next
  case (Cons c cs)
  show ?case
  proof (cases "invoke c b")
    case (Pair r b1)
    then show ?thesis
      using Cons.IH[of b1] by (cases r) (simp_all add: invoke_result_prefix)
  qed
qed

lemma invoke_appends_formatted:
  "fst (invoke c this) = Inr () \<Longrightarrow> result (snd (invoke c this)) = result this @ formatted c"
  by (cases c)
     (auto simp: element_def id_m_def class_m_def attr_def pseudoClass_def pseudoElement_def
        checked_append_def checkUsage_def repeatable_def Let_def split: if_splits)

text \<open>
  C9. The object \<^verbatim>\<open>combine\<close> returns is a newly constructed builder but for its text:
  \<^verbatim>\<open>previousOrder\<close> is 0 and no flag is set. Every chain of calls has on it the outcome it
  has on a new builder, with the combined text in front of what it appends; a chain that
  respects order and singletons is accepted and leaves the combined text followed by
  its formatted fragments; and a call that returns, on any object, appends its
  formatted fragment to the text.
\<close>
theorem combined_builder_accepts_appends:
  assumes "selector1 < length h" and "selector2 < length h"
    and "combine this selector1 combinator selector2 h = (r, h')"
  shows "h' ! r = constructor\<lparr>result := result (h' ! r)\<rparr>
       \<and> previousOrder (h' ! r) = 0
       \<and> fst (elementUsed (h' ! r)) = False \<and> fst (idUsed (h' ! r)) = False
       \<and> fst (pseudoElementUsed (h' ! r)) = False
       \<and> (\<forall>cs. fst (chain cs (h' ! r)) = fst (chain cs constructor)
              \<and> result (snd (chain cs (h' ! r)))
                   = result (h' ! r) @ result (snd (chain cs constructor)))
       \<and> (\<forall>cs. respects_order cs \<longrightarrow> respects_singletons cs \<longrightarrow>
              fst (chain cs (h' ! r)) = Inr ()
              \<and> result (snd (chain cs (h' ! r))) = result (h' ! r) @ concat (map formatted cs))
       \<and> (\<forall>c b. fst (invoke c b) = Inr () \<longrightarrow> result (snd (invoke c b)) = result b @ formatted c)"
proof -
  have "h' ! r = constructor\<lparr>result := result (h ! selector1) @ '' '' @ combinator @ '' '' @
            (if selector1 = selector2 then [] else result (h ! selector2))\<rparr>"
    using assms(3) unfolding combine_eq[OF assms(1,2)] by (auto simp: nth_append)
  then obtain s where b: "h' ! r = constructor\<lparr>result := s\<rparr>" by blast
  have c0: "result constructor = []" by (simp add: constructor_def)
  have pre: "chain cs (constructor\<lparr>result := s\<rparr>) =
      (fst (chain cs constructor),
       (snd (chain cs constructor))\<lparr>result := s @ result (snd (chain cs constructor))\<rparr>)" for cs
    using chain_result_prefix[where cs=cs and b=constructor and s=s] by (simp add: c0)
  have valid: "fst (chain cs constructor) = Inr ()
      \<and> result (snd (chain cs constructor)) = concat (map formatted cs)"
    if "respects_order cs" "respects_singletons cs" for cs
    using chain_holding[of "[]" cs "[]"] that by (simp add: constructor_holding holding_def)
  show ?thesis
    unfolding b using valid invoke_appends_formatted
    by (simp add: pre) (simp add: constructor_def)
qed

text \<open>\<^verbatim>\<open>.element('x').id('y')\<close> on the combined builder of the example.\<close>
theorem combined_builder_accepts_appends_witness:
  "0 < length (snd (builder_expression (CallElement ''table'') [CallId ''data'']
          (snd (builder_expression (CallElement ''div'') [CallId ''main''] []))))
   \<and> 1 < length (snd (builder_expression (CallElement ''table'') [CallId ''data'']
          (snd (builder_expression (CallElement ''div'') [CallId ''main''] []))))
   \<and> combine 0 0 ''+'' 1
        (snd (builder_expression (CallElement ''table'') [CallId ''data'']
          (snd (builder_expression (CallElement ''div'') [CallId ''main''] []))))
      = (2, [constructor, constructor, constructor\<lparr>result := ''div#main + table#data''\<rparr>])
   \<and> respects_order [CallElement ''x'', CallId ''y'']
   \<and> respects_singletons [CallElement ''x'', CallId ''y'']
   \<and> fst (chain [CallElement ''x'', CallId ''y'']
        ([constructor, constructor, constructor\<lparr>result := ''div#main + table#data''\<rparr>] ! 2))
      = Inr ()
   \<and> result (snd (chain [CallElement ''x'', CallId ''y'']
        ([constructor, constructor, constructor\<lparr>result := ''div#main + table#data''\<rparr>] ! 2)))
      = ''div#main + table#datax#y''"
proof -
  let ?h = "snd (builder_expression (CallElement ''table'') [CallId ''data'']
          (snd (builder_expression (CallElement ''div'') [CallId ''main''] [])))"
  let ?h' = "[constructor, constructor, constructor\<lparr>result := ''div#main + table#data''\<rparr>]"
  have l: "0 < length ?h" "1 < length ?h"
    by (simp_all only: two_selectors) simp_all
  have c: "combine 0 0 ''+'' 1 ?h = (2, ?h')"
    unfolding two_selectors by (simp add: combine_eq holding_def)
  have v: "respects_order [CallElement ''x'', CallId ''y'']"
    "respects_singletons [CallElement ''x'', CallId ''y'']"
    by (simp_all add: respects_order_def respects_singletons_def)
  note t = combined_builder_accepts_appends [OF l c]
  from t have "respects_order [CallElement ''x'', CallId ''y''] \<longrightarrow>
      respects_singletons [CallElement ''x'', CallId ''y''] \<longrightarrow>
      fst (chain [CallElement ''x'', CallId ''y''] (?h' ! 2)) = Inr ()
      \<and> result (snd (chain [CallElement ''x'', CallId ''y''] (?h' ! 2)))
          = result (?h' ! 2) @ concat (map formatted [CallElement ''x'', CallId ''y''])"
    by blast
  with v have a: "fst (chain [CallElement ''x'', CallId ''y''] (?h' ! 2)) = Inr ()"
    and b: "result (snd (chain [CallElement ''x'', CallId ''y''] (?h' ! 2)))
          = result (?h' ! 2) @ concat (map formatted [CallElement ''x'', CallId ''y''])"
    by blast+
  have "result (?h' ! 2) @ concat (map formatted [CallElement ''x'', CallId ''y''])
          = ''div#main + table#datax#y''"
    by simp
  with b have b': "result (snd (chain [CallElement ''x'', CallId ''y''] (?h' ! 2)))
          = ''div#main + table#datax#y''"
    by (rule trans)
  from l c v a b' show ?thesis by blast
qed

lemma nested_left_eq:
  assumes "a < length h" and "b < length h" and "c < length h"
  shows "fst (nested_left a c1 b c2 c h) =
     result (h ! a) @ '' '' @ c1 @ '' '' @ (if a = b then [] else result (h ! b))
       @ '' '' @ c2 @ '' '' @ (if c = a \<or> c = b then [] else result (h ! c))"
proof -
  obtain x h1 where e1: "cssSelectorBuilder_combine a c1 b h = (x, h1)" by fastforce
  obtain y h2 where e2: "cssSelectorBuilder_combine x c2 c h1 = (y, h2)" by fastforce
  note f1 = facade_combine_result[OF assms(1,2) e1]
  have lx: "x < length h1" and lc: "c < length h1" and ne: "x \<noteq> c"
    using f1(1,2) assms(3) by simp_all
  note f2 = facade_combine_result[OF lx lc e2]
  have "fst (nested_left a c1 b c2 c h) = result (h2 ! y)"
    by (simp add: nested_left_def e1 e2 on_stringify)
  also have "\<dots> = result (h1 ! x) @ '' '' @ c2 @ '' '' @ result (h1 ! c)"
    using f2(3) ne by simp
  finally show ?thesis
    using f1(3) f1(4)[OF assms(3)] by simp
qed

lemma nested_right_eq:
  assumes "a < length h" and "b < length h" and "c < length h"
  shows "fst (nested_right a c1 b c2 c h) =
     (if a = b \<or> a = c then [] else result (h ! a)) @ '' '' @ c1 @ '' '' @ result (h ! b)
       @ '' '' @ c2 @ '' '' @ (if b = c then [] else result (h ! c))"
proof -
  obtain x h1 where e1: "cssSelectorBuilder_combine b c2 c h = (x, h1)" by fastforce
  obtain y h2 where e2: "cssSelectorBuilder_combine a c1 x h1 = (y, h2)" by fastforce
  note f1 = facade_combine_result[OF assms(2,3) e1]
  have lx: "x < length h1" and la: "a < length h1" and ne: "a \<noteq> x"
    using f1(1,2) assms(1) by simp_all
  note f2 = facade_combine_result[OF la lx e2]
  have "fst (nested_right a c1 b c2 c h) = result (h2 ! y)"
    by (simp add: nested_right_def e1 e2 on_stringify)
  also have "\<dots> = result (h1 ! a) @ '' '' @ c1 @ '' '' @ result (h1 ! x)"
    using f2(3) ne by simp
  finally show ?thesis
    using f1(3) f1(4)[OF assms(1)] by simp
qed

text \<open>
  C8, as amended. When the first selector is a different object from the second and from
  the third, the two nestings, each evaluated from the same store, give the same string:
  the three texts joined by the two combinators (the third text is empty when the
  second and third selectors are the same object).
\<close>
theorem combine_associative_distinct_first:
  assumes "a < length h" and "b < length h" and "c < length h"
    and "a \<noteq> b" and "a \<noteq> c"
  shows "fst (nested_left a c1 b c2 c h) = fst (nested_right a c1 b c2 c h)
       \<and> fst (nested_left a c1 b c2 c h) =
           result (h ! a) @ '' '' @ c1 @ '' '' @ result (h ! b) @ '' '' @ c2 @ '' '' @
           (if b = c then [] else result (h ! c))"
  using assms(4,5)
  by (auto simp: nested_left_eq[OF assms(1-3)] nested_right_eq[OF assms(1-3)])

text \<open>Three different builders \<^verbatim>\<open>element('x')\<close>, \<^verbatim>\<open>element('y')\<close>, \<^verbatim>\<open>element('z')\<close>.\<close>
theorem combine_associative_distinct_first_witness:
  "0 < length (snd (builder_expression (CallElement ''z'') []
         (snd (builder_expression (CallElement ''y'') []
            (snd (builder_expression (CallElement ''x'') [] []))))))
   \<and> 1 < length (snd (builder_expression (CallElement ''z'') []
         (snd (builder_expression (CallElement ''y'') []
            (snd (builder_expression (CallElement ''x'') [] []))))))
   \<and> 2 < length (snd (builder_expression (CallElement ''z'') []
         (snd (builder_expression (CallElement ''y'') []
            (snd (builder_expression (CallElement ''x'') [] []))))))
   \<and> (0::nat) \<noteq> 1 \<and> (0::nat) \<noteq> 2
   \<and> fst (nested_left 0 ''+'' 1 ''>'' 2
         (snd (builder_expression (CallElement ''z'') []
           (snd (builder_expression (CallElement ''y'') []
              (snd (builder_expression (CallElement ''x'') [] []))))))) = ''x + y > z''
   \<and> fst (nested_right 0 ''+'' 1 ''>'' 2
         (snd (builder_expression (CallElement ''z'') []
           (snd (builder_expression (CallElement ''y'') []
              (snd (builder_expression (CallElement ''x'') [] []))))))) = ''x + y > z''"
proof -
  let ?h = "snd (builder_expression (CallElement ''z'') []
     (snd (builder_expression (CallElement ''y'') []
        (snd (builder_expression (CallElement ''x'') [] [])))))"
  have l: "0 < length ?h" "1 < length ?h" "2 < length ?h"
    by (simp_all only: three_builders) simp_all
  have d: "(0::nat) \<noteq> 1" "(0::nat) \<noteq> 2" by simp_all
  note t = combine_associative_distinct_first [OF l d, of "''+''" "''>''"]
  have v: "result (?h ! 0) @ '' '' @ ''+'' @ '' '' @ result (?h ! 1) @ '' '' @ ''>'' @ '' '' @
           (if (1::nat) = 2 then [] else result (?h ! 2)) = ''x + y > z''"
    unfolding three_builders by (simp add: holding_def)
  from t have tl: "fst (nested_left 0 ''+'' 1 ''>'' 2 ?h) = fst (nested_right 0 ''+'' 1 ''>'' 2 ?h)"
    by (rule conjunct1)
  from t have "fst (nested_left 0 ''+'' 1 ''>'' 2 ?h) =
      result (?h ! 0) @ '' '' @ ''+'' @ '' '' @ result (?h ! 1) @ '' '' @ ''>'' @ '' '' @
           (if (1::nat) = 2 then [] else result (?h ! 2))"
    by (rule conjunct2)
  then have a: "fst (nested_left 0 ''+'' 1 ''>'' 2 ?h) = ''x + y > z''"
    by (rule trans) (rule v)
  have b: "fst (nested_right 0 ''+'' 1 ''>'' 2 ?h) = ''x + y > z''"
    by (rule trans[OF tl[symmetric] a])
  from l d a b show ?thesis by blast
qed

text \<open>
  C8 as stated fails when the first and the third selector are the same object: with
  \<^verbatim>\<open>a = element('x')\<close> and \<^verbatim>\<open>b = element('y')\<close>,
  \<^verbatim>\<open>combine(combine(a, '+', b), '>', a).stringify()\<close> is \<^verbatim>\<open>'x + y > '\<close> and
  \<^verbatim>\<open>combine(a, '+', combine(b, '>', a)).stringify()\<close> is \<^verbatim>\<open>' + y > x'\<close>, because
  \<^verbatim>\<open>stringify\<close> empties \<^verbatim>\<open>a\<close> the first time it is reached.
\<close>
theorem combine_associative_counterexample:
  "fst (nested_left 0 ''+'' 1 ''>'' 0
          (snd (builder_expression (CallElement ''y'') []
             (snd (builder_expression (CallElement ''x'') [] [])))))
     = ''x + y > ''
   \<and> fst (nested_right 0 ''+'' 1 ''>'' 0
          (snd (builder_expression (CallElement ''y'') []
             (snd (builder_expression (CallElement ''x'') [] [])))))
     = '' + y > x''
   \<and> fst (nested_left 0 ''+'' 1 ''>'' 0
          (snd (builder_expression (CallElement ''y'') []
             (snd (builder_expression (CallElement ''x'') [] [])))))
     \<noteq> fst (nested_right 0 ''+'' 1 ''>'' 0
          (snd (builder_expression (CallElement ''y'') []
             (snd (builder_expression (CallElement ''x'') [] [])))))"
  unfolding two_builders
  by (simp add: nested_left_eq nested_right_eq holding_def)

end
